theory Spec2Isabelle
  imports Complex_Main
begin

section \<open>FleetLogix synthetic data generator (scripts/01\_data\_generation.py)\<close>

text \<open>
  The generator draws from seeded random sources and from the wall clock. In this
  embedding every random draw and every clock reading is an explicit argument of the
  function that consumes it, Python integers are \<^typ>\<open>int\<close> or \<^typ>\<open>nat\<close>,
  and Python floats are idealised as \<^typ>\<open>real\<close>.
\<close>

subsection \<open>Errors\<close>

text \<open>
  Every \<^verbatim>\<open>raise RuntimeError(...)\<close> of the script is a value \<open>RuntimeError m\<close>,
  with one constructor of \<open>runtime_msg\<close> per message.
\<close>

datatype runtime_msg =
  Missing_base_data | No_trips | No_capacity_to_reach_target | Cannot_reduce_to_target

datatype error = RuntimeError runtime_msg | IndexError | ZeroDivisionError

subsection \<open>Python numerics\<close>

text \<open>
  \<open>py_round x n\<close> is \<^verbatim>\<open>round(x, n)\<close>: the nearest multiple of \<open>10^-n\<close>, ties to
  the even one. \<open>py_int\<close> is \<^verbatim>\<open>int(x)\<close> on a float: truncation towards zero.
  \<open>uniform a b r\<close> is \<^verbatim>\<open>random.uniform(a, b)\<close>, which the standard library computes
  as \<^verbatim>\<open>a + (b - a) * random()\<close>; \<open>r\<close> is the value of \<^verbatim>\<open>random()\<close>, in \<open>[0, 1)\<close>.
\<close>

definition round_half_even :: "real \<Rightarrow> int" where
  "round_half_even y =
     (let f = \<lfloor>y\<rfloor>; r = y - of_int f
      in if r < 1 / 2 then f else if 1 / 2 < r then f + 1 else if even f then f else f + 1)"

definition py_round :: "real \<Rightarrow> nat \<Rightarrow> real" where
  "py_round x ndigits = of_int (round_half_even (x * 10 ^ ndigits)) / 10 ^ ndigits"

definition py_int :: "real \<Rightarrow> int" where
  "py_int x = (if 0 \<le> x then \<lfloor>x\<rfloor> else \<lceil>x\<rceil>)"

definition uniform :: "real \<Rightarrow> real \<Rightarrow> real \<Rightarrow> real" where
  "uniform a b r = a + (b - a) * r"

subsection \<open>datetime and timedelta\<close>

text \<open>
  A naive \<^verbatim>\<open>datetime\<close> is its number of microseconds since midnight of day 0 of the
  proleptic calendar, a \<^verbatim>\<open>timedelta\<close> a number of microseconds. \<open>date\<close> is the day
  number of \<^verbatim>\<open>.date()\<close>, \<open>days\<close> the field \<^verbatim>\<open>.days\<close> (the floor of the difference
  in days). \<^verbatim>\<open>timedelta(hours=h)\<close> with a float rounds to the nearest microsecond.
  \<open>replace_time t h m\<close> is \<^verbatim>\<open>t.replace(hour=h, minute=m, second=0, microsecond=0)\<close>.
  The range check of \<^verbatim>\<open>datetime\<close> (years 1 to 9999) is not modelled.
\<close>

type_synonym datetime = int
type_synonym timedelta = int

definition us_per_minute :: int where "us_per_minute = 60000000"
definition us_per_hour :: int where "us_per_hour = 3600000000"
definition us_per_day :: int where "us_per_day = 86400000000"

definition timedelta_days :: "int \<Rightarrow> timedelta" where
  "timedelta_days d = d * us_per_day"

definition timedelta_minutes :: "int \<Rightarrow> timedelta" where
  "timedelta_minutes m = m * us_per_minute"

definition timedelta_hours :: "real \<Rightarrow> timedelta" where
  "timedelta_hours h = round_half_even (h * real_of_int us_per_hour)"

definition days :: "timedelta \<Rightarrow> int" where
  "days td = td div us_per_day"

definition total_seconds :: "timedelta \<Rightarrow> real" where
  "total_seconds td = real_of_int td / 1000000"

definition date :: "datetime \<Rightarrow> int" where
  "date t = t div us_per_day"

definition replace_time :: "datetime \<Rightarrow> int \<Rightarrow> int \<Rightarrow> datetime" where
  "replace_time t hour minute = date t * us_per_day + hour * us_per_hour + minute * us_per_minute"

subsection \<open>\_distribute\_weight\_lognormal\<close>

text \<open>
  The argument \<open>lognormal\<close> is the sample
  \<^verbatim>\<open>np.random.lognormal(mean=2.5, sigma=0.6, size=num_packages)\<close>, so \<open>num_packages\<close> is
  its length. \<open>np_clip_min a m\<close> is \<^verbatim>\<open>np.clip(a, m, None)\<close>.
\<close>

definition np_clip_min :: "real list \<Rightarrow> real \<Rightarrow> real list" where
  "np_clip_min a a_min = map (\<lambda>x. max x a_min) a"

definition distribute_weight_lognormal :: "real list \<Rightarrow> real \<Rightarrow> real list" where
  "distribute_weight_lognormal lognormal total_weight =
     (let raw = lognormal;
          raw = np_clip_min raw 0.5;
          scaled = map (\<lambda>r. r / sum_list raw * (total_weight * 0.95)) raw
      in scaled)"

subsection \<open>generate\_deliveries: per-trip delivery counts\<close>

text \<open>
  \<open>adjust_per_trip\<close> is lines 488 to 531 of generate\_deliveries. \<open>per_trip\<close> is the
  numpy array drawn by \<^verbatim>\<open>np.random.choice(choices, size=n_trips, p=probs)\<close>; the draw
  is an argument, and \<open>n_trips\<close>, the number of trips read, is its length. With no
  trips the function raises at line 490, before anything is drawn.
  The adjustment mutates the array in place, so the model returns the array as it
  stands when the step ends, together with the exception raised, if any.
  The two \<^verbatim>\<open>while\<close> loops have no bound of their own, so they are partial
  functions: \<open>None\<close> is a loop that never ends.
\<close>

definition choices :: "int list" where
  "choices = [2, 3, 4, 5, 6]"

type_synonym alloc_state = "error option \<times> int list"

partial_function (option) raise_loop :: "int list \<Rightarrow> int \<Rightarrow> nat \<Rightarrow> alloc_state option" where
  "raise_loop per_trip diff i =
     (if diff > 0 then
        (if i < length per_trip then
           (if per_trip ! i < 6
            then raise_loop (per_trip[i := per_trip ! i + 1]) (diff - 1) ((i + 1) mod length per_trip)
            else raise_loop per_trip diff ((i + 1) mod length per_trip))
         else Some (Some IndexError, per_trip))
      else Some (None, per_trip))"

partial_function (option) lower_loop :: "int list \<Rightarrow> int \<Rightarrow> nat \<Rightarrow> alloc_state option" where
  "lower_loop per_trip need i =
     (if need > 0 then
        (if i < length per_trip then
           (if per_trip ! i > 2
            then lower_loop (per_trip[i := per_trip ! i - 1]) (need - 1) ((i + 1) mod length per_trip)
            else lower_loop per_trip need ((i + 1) mod length per_trip))
         else Some (Some IndexError, per_trip))
      else Some (None, per_trip))"

declare raise_loop.simps [code]
declare lower_loop.simps [code]

definition adjust_per_trip :: "int list \<Rightarrow> int \<Rightarrow> alloc_state option" where
  "adjust_per_trip per_trip target =
     (let n_trips = length per_trip
      in if n_trips = 0 then Some (Some (RuntimeError No_trips), per_trip)
         else
           (let current_total = sum_list per_trip;
                diff = target - current_total
            in if diff > 0 then
                 (let capacity = sum_list (map (\<lambda>c. 6 - c) per_trip)
                  in if capacity < diff
                     then Some (Some (RuntimeError No_capacity_to_reach_target), per_trip)
                     else raise_loop per_trip diff 0)
               else if diff < 0 then
                 (let need = - diff;
                      capacity = sum_list (map (\<lambda>c. c - 2) per_trip)
                  in if capacity < need
                     then Some (Some (RuntimeError Cannot_reduce_to_target), per_trip)
                     else lower_loop per_trip need 0)
               else Some (None, per_trip)))"

text \<open>
  What a run of each loop is shown to establish: the array keeps its length, its sum
  moves by exactly the requested amount, and every entry moves in one direction only
  and stays within the bound.
\<close>

definition nudged_up :: "int list \<Rightarrow> int \<Rightarrow> int list \<Rightarrow> bool" where
  "nudged_up xs d ys \<longleftrightarrow>
     length ys = length xs \<and> sum_list ys = sum_list xs + d \<and>
     (\<forall>j < length xs. xs ! j \<le> ys ! j \<and> ys ! j \<le> 6)"

definition nudged_down :: "int list \<Rightarrow> int \<Rightarrow> int list \<Rightarrow> bool" where
  "nudged_down xs d ys \<longleftrightarrow>
     length ys = length xs \<and> sum_list ys = sum_list xs - d \<and>
     (\<forall>j < length xs. 2 \<le> ys ! j \<and> ys ! j \<le> xs ! j)"

subsection \<open>generate\_deliveries: the delivery schedule\<close>

text \<open>
  \<open>n\<close> is the entry of \<open>per_trip\<close> for the trip, \<open>i\<close> the index of the delivery in
  \<^verbatim>\<open>range(int(n))\<close>. An arrival of \<open>None\<close> is a trip in progress.
\<close>

definition delivery_gap :: "datetime \<Rightarrow> datetime option \<Rightarrow> int \<Rightarrow> real" where
  "delivery_gap departure arrival n =
     (case arrival of
        Some a \<Rightarrow>
          (let total_hours = max (total_seconds (a - departure) / 3600) 1
           in total_hours / real_of_int n)
      | None \<Rightarrow> 0.5)"

definition scheduled :: "datetime \<Rightarrow> real \<Rightarrow> nat \<Rightarrow> datetime" where
  "scheduled departure gap i = departure + timedelta_hours (gap * (real i + 0.5))"

subsection \<open>generate\_maintenance\<close>

text \<open>
  A row of \<open>stats\<close> carries the columns the loop reads. \<open>rnd k\<close> is the value of
  \<^verbatim>\<open>random()\<close> behind the \<open>k\<close>-th call of \<^verbatim>\<open>random.uniform(-300, 300)\<close>. A maintenance
  row keeps the vehicle and the date; type, cost, next date and mechanic come from
  further draws and do not enter the date. \<open>interpolated_date\<close> is lines 642 to 645
  of the loop body. The \<^verbatim>\<open>while\<close> loop is a partial function.
\<close>

record vehicle_stats =
  stats_vehicle_id :: nat
  stats_first_trip :: "datetime option"
  stats_last_trip :: "datetime option"
  stats_total_km :: real

record maintenance =
  maintenance_vehicle_id :: nat
  maintenance_date :: int

definition interpolated_date :: "datetime \<Rightarrow> datetime \<Rightarrow> real \<Rightarrow> real \<Rightarrow> int" where
  "interpolated_date first_trip last_trip total_km km_cursor =
     (let span_days = max (days (last_trip - first_trip)) 1;
          frac = km_cursor / total_km;
          day_offset = py_int (frac * real_of_int span_days)
      in date (first_trip + timedelta_days day_offset))"

partial_function (option) maintenance_walk ::
  "(nat \<Rightarrow> real) \<Rightarrow> nat \<Rightarrow> nat \<Rightarrow> datetime \<Rightarrow> datetime \<Rightarrow> real \<Rightarrow>
   real \<Rightarrow> real \<Rightarrow> nat \<Rightarrow> maintenance list \<Rightarrow> (nat \<times> maintenance list) option" where
  "maintenance_walk rnd target vid first_trip last_trip total_km km_cursor next_threshold k rows =
     (if km_cursor + next_threshold \<le> total_km \<and> length rows < target then
        (let km_cursor' = km_cursor + next_threshold;
             next_threshold' = 10000 + uniform (- 300) 300 (rnd k);
             m_date = interpolated_date first_trip last_trip total_km km_cursor';
             rows' = rows @ [\<lparr>maintenance_vehicle_id = vid, maintenance_date = m_date\<rparr>]
         in if target \<le> length rows' then Some (Suc k, rows')
            else maintenance_walk rnd target vid first_trip last_trip total_km km_cursor' next_threshold'
                   (Suc k) rows')
      else Some (k, rows))"

declare maintenance_walk.simps [code]

fun maintenance_loop ::
  "(nat \<Rightarrow> real) \<Rightarrow> nat \<Rightarrow> vehicle_stats list \<Rightarrow> nat \<Rightarrow> maintenance list \<Rightarrow>
   maintenance list option" where
  "maintenance_loop rnd target [] k rows = Some rows"
| "maintenance_loop rnd target (s # stats) k rows =
     (case (stats_first_trip s, stats_last_trip s) of
        (Some first_trip, Some last_trip) \<Rightarrow>
          if stats_total_km s \<le> 0 then maintenance_loop rnd target stats k rows
          else
            (let km_cursor = 0;
                 next_threshold = 10000 + uniform (- 300) 300 (rnd k)
             in case maintenance_walk rnd target (stats_vehicle_id s) first_trip last_trip (stats_total_km s)
                       km_cursor next_threshold (Suc k) rows of
                  None \<Rightarrow> None
                | Some (k', rows') \<Rightarrow>
                    if target \<le> length rows' then Some rows'
                    else maintenance_loop rnd target stats k' rows')
      | _ \<Rightarrow> maintenance_loop rnd target stats k rows)"

definition generate_maintenance ::
  "(nat \<Rightarrow> real) \<Rightarrow> vehicle_stats list \<Rightarrow> nat \<Rightarrow> maintenance list option" where
  "generate_maintenance rnd stats target =
     map_option (take target) (maintenance_loop rnd target stats 0 [])"

subsection \<open>\_hourly\_distribution\_full\_24 and the departure hour\<close>

text \<open>
  \<open>dict_get d k dflt\<close> is \<^verbatim>\<open>d.get(k, dflt)\<close>. \<open>departure_hour\<close> is the clamp of lines 417
  and 418 of generate\_trips, applied to the value that
  \<^verbatim>\<open>np.random.choice(range(24), p=p_hour)\<close> returned.
\<close>

definition hours :: "nat list" where
  "hours = [6..<23]"

definition weights :: "nat \<rightharpoonup> real" where
  "weights = map_of
     [(6, 4), (7, 6), (8, 10), (9, 10), (10, 8), (11, 6), (12, 5), (13, 5), (14, 9),
      (15, 9), (16, 8), (17, 6), (18, 6), (19, 4), (20, 2), (21, 2), (22, 1)]"

definition dict_get :: "('k \<rightharpoonup> 'v) \<Rightarrow> 'k \<Rightarrow> 'v \<Rightarrow> 'v" where
  "dict_get d k dflt = (case d k of Some v \<Rightarrow> v | None \<Rightarrow> dflt)"

definition hourly_distribution_full_24 :: "real list" where
  "hourly_distribution_full_24 =
     (let probs = map (\<lambda>h. dict_get weights h 1) hours;
          probs = map (\<lambda>p. p / sum_list probs) probs;
          full = replicate 24 0
      in fold (\<lambda>(i, h) full. full[h := probs ! i]) (enumerate 0 hours) full)"

definition departure_hour :: "nat \<Rightarrow> nat" where
  "departure_hour hour = (if hour < 6 then 6 else hour)"

subsection \<open>generate\_deliveries: the rows\<close>

text \<open>
  \<open>str_nat\<close> is \<^verbatim>\<open>str\<close> on a non-negative integer and \<open>zfill s w\<close> is \<^verbatim>\<open>s.zfill(w)\<close>.
  \<open>tracking year counter\<close> is the f-string of line 551, \<open>year\<close> being
  \<^verbatim>\<open>datetime.now().year\<close>.
\<close>

fun str_nat :: "nat \<Rightarrow> string" where
  "str_nat n = (if n < 10 then [char_of (48 + n)] else str_nat (n div 10) @ [char_of (48 + n mod 10)])"

declare str_nat.simps [simp del]

definition zfill :: "string \<Rightarrow> nat \<Rightarrow> string" where
  "zfill s width =
     (case s of
        [] \<Rightarrow> replicate width (CHR ''0'')
      | c # rest \<Rightarrow>
          if c = CHR ''+'' \<or> c = CHR ''-''
          then c # replicate (width - length s) (CHR ''0'') @ rest
          else replicate (width - length s) (CHR ''0'') @ s)"

definition tracking :: "nat \<Rightarrow> nat \<Rightarrow> string" where
  "tracking year counter = ''FL'' @ str_nat year @ zfill (str_nat counter) 8"

text \<open>
  A trip as the query of generate\_deliveries returns it, and a delivery row with the
  columns computed from the trip and the counter. Customer, address, delivered
  timestamp, status and signature come from further draws and are left out.
  \<open>year_now c\<close> is the year the clock shows when delivery number \<open>c\<close> is built, and
  \<open>lognormal k n\<close> the sample of size \<open>n\<close> drawn for the \<open>k\<close>-th trip.
\<close>

record trip_info =
  trip_id :: nat
  departure_datetime :: datetime
  arrival_datetime :: "datetime option"
  total_weight_kg :: real

record delivery =
  delivery_trip_id :: nat
  tracking_number :: string
  package_weight_kg :: real
  scheduled_datetime :: datetime

fun trip_deliveries ::
  "(nat \<Rightarrow> nat) \<Rightarrow> trip_info \<Rightarrow> real list \<Rightarrow> real \<Rightarrow> nat list \<Rightarrow> nat \<Rightarrow> delivery list \<Rightarrow>
   nat \<times> delivery list" where
  "trip_deliveries year_now t ws gap [] counter rows = (counter, rows)"
| "trip_deliveries year_now t ws gap (i # is) counter rows =
     (let counter' = counter + 1;
          row = \<lparr>delivery_trip_id = trip_id t,
                 tracking_number = tracking (year_now counter') counter',
                 package_weight_kg = py_round (ws ! i) 2,
                 scheduled_datetime = scheduled (departure_datetime t) gap i\<rparr>
      in trip_deliveries year_now t ws gap is counter' (rows @ [row]))"

fun deliveries_loop ::
  "(nat \<Rightarrow> nat) \<Rightarrow> (nat \<Rightarrow> nat \<Rightarrow> real list) \<Rightarrow> (trip_info \<times> int) list \<Rightarrow> nat \<Rightarrow> nat \<Rightarrow>
   delivery list \<Rightarrow> nat \<times> delivery list" where
  "deliveries_loop year_now lognormal [] k counter rows = (counter, rows)"
| "deliveries_loop year_now lognormal ((t, n) # rest) k counter rows =
     (let ws = distribute_weight_lognormal (lognormal k (nat n)) (total_weight_kg t);
          gap = delivery_gap (departure_datetime t) (arrival_datetime t) n;
          (counter', rows') = trip_deliveries year_now t ws gap [0..<nat n] counter rows
      in deliveries_loop year_now lognormal rest (Suc k) counter' rows')"

definition delivery_rows ::
  "(nat \<Rightarrow> nat) \<Rightarrow> (nat \<Rightarrow> nat \<Rightarrow> real list) \<Rightarrow> trip_info list \<Rightarrow> int list \<Rightarrow> delivery list" where
  "delivery_rows year_now lognormal trips per_trip =
     snd (deliveries_loop year_now lognormal (zip trips per_trip) 0 0 [])"

text \<open>
  For the proofs: the number a digit string denotes, and the invariant of the row
  loops, that the tracking numbers built so far are those of the counters 1 to
  \<open>counter\<close>, in order.
\<close>

definition val_of :: "string \<Rightarrow> nat" where
  "val_of s = foldl (\<lambda>a c. 10 * a + (of_char c - 48)) 0 s"

definition numbered :: "(nat \<Rightarrow> nat) \<Rightarrow> nat \<Rightarrow> delivery list \<Rightarrow> bool" where
  "numbered year_now counter rows \<longleftrightarrow>
     map tracking_number rows = map (\<lambda>c. tracking (year_now c) c) [1..<Suc counter]"

subsection \<open>generate\_trips\<close>

text \<open>
  The vehicle, driver and route lists are the rows read back from the database.
  \<open>vtype\<close> has one constructor per key of \<open>cons_ranges\<close> and \<open>Other_type\<close> for any
  other string. A \<open>trip_draws\<close> holds what the random sources return in one pass of
  the loop: the indices chosen by \<^verbatim>\<open>random.choice\<close> (below the length of the list), the
  hour and minute, and the values of \<^verbatim>\<open>random()\<close> behind the four calls of
  \<^verbatim>\<open>random.uniform\<close>. \<open>now_start\<close> is the reading of \<^verbatim>\<open>datetime.now()\<close> of line 395,
  \<open>now_at k\<close> the reading of line 436 in pass \<open>k\<close>. \<open>make_trip\<close> is the body of the
  loop (lines 410 to 449).
\<close>

datatype vtype = Camion_Grande | Camion_Mediano | Van | Motocicleta | Other_type

definition cons_ranges :: "vtype \<rightharpoonup> real \<times> real" where
  "cons_ranges = map_of
     [(Camion_Grande, (25, 35)), (Camion_Mediano, (18, 26)), (Van, (9, 15)),
      (Motocicleta, (2, 4))]"

record vehicle =
  vehicle_id :: nat
  capacity_kg :: int
  vehicle_type :: vtype

record route =
  route_id :: nat
  distance_km :: real
  estimated_duration_hours :: real

record trip_draws =
  vehicle_pick :: nat
  driver_pick :: nat
  route_pick :: nat
  hour_draw :: nat
  minute_draw :: int
  realism_r :: real
  l100_r :: real
  fuel_r :: real
  weight_r :: real

datatype trip_status = Completed | In_progress

record trip_row =
  row_vehicle_id :: nat
  row_driver_id :: nat
  row_route_id :: nat
  row_departure :: datetime
  row_arrival :: "datetime option"
  row_fuel :: real
  row_total_weight :: real
  row_status :: trip_status

definition make_trip ::
  "vehicle list \<Rightarrow> nat list \<Rightarrow> route list \<Rightarrow> datetime \<Rightarrow> trip_draws \<Rightarrow> datetime \<Rightarrow> trip_row" where
  "make_trip vehicles drivers routes current_dt d now =
     (let v = vehicles ! vehicle_pick d;
          driver_id = drivers ! driver_pick d;
          r = routes ! route_pick d;
          distance = distance_km r;
          est_dur = estimated_duration_hours r;
          hour = departure_hour (hour_draw d);
          departure = replace_time current_dt (int hour) (minute_draw d);
          base_dur = distance / 70 + 1;
          realism = uniform 0.85 1.15 (realism_r d);
          actual_dur = max est_dur base_dur * realism;
          arrival = departure + timedelta_hours actual_dur;
          (lo, hi) = dict_get cons_ranges (vehicle_type v) (10, 20);
          l100 = uniform lo hi (l100_r d);
          fuel = distance * (l100 / 100) * uniform 0.95 1.05 (fuel_r d);
          total_weight = real_of_int (capacity_kg v) * uniform 0.4 0.9 (weight_r d);
          status = (if arrival < now then Completed else In_progress)
      in \<lparr>row_vehicle_id = vehicle_id v, row_driver_id = driver_id,
          row_route_id = route_id r, row_departure = departure,
          row_arrival = (if status = Completed then Some arrival else None),
          row_fuel = py_round fuel 2, row_total_weight = py_round total_weight 2,
          row_status = status\<rparr>)"

definition minutes_step :: "nat \<Rightarrow> int" where
  "minutes_step count = py_int (2 * 365 * 24 * 60 / real count)"

definition generate_trips ::
  "datetime \<Rightarrow> (nat \<Rightarrow> datetime) \<Rightarrow> vehicle list \<Rightarrow> nat list \<Rightarrow> route list \<Rightarrow>
   (nat \<Rightarrow> trip_draws) \<Rightarrow> nat \<Rightarrow> error + trip_row list" where
  "generate_trips now_start now_at vehicles drivers routes draws count =
     (if vehicles = [] \<or> drivers = [] \<or> routes = [] then Inl (RuntimeError Missing_base_data)
      else
        (let start_date = now_start - timedelta_days 730;
             current_dt = start_date
         in if count = 0 then Inl ZeroDivisionError
            else Inr (snd (fold
                   (\<lambda>k (current_dt, rows).
                      (current_dt + timedelta_minutes (minutes_step count),
                       rows @ [make_trip vehicles drivers routes current_dt (draws k) (now_at k)]))
                   [0..<count] (current_dt, [])))))"

section \<open>Verification\<close>

subsection \<open>The count adjustment\<close>

lemma sum_list_update_int:
  "i < length xs \<Longrightarrow> sum_list (xs[i := v]) = sum_list xs - xs ! i + (v::int)"
  by (induction xs arbitrary: i) (auto split: nat.splits)

lemma sum_list_nonpos:
  "(\<And>x. x \<in> set xs \<Longrightarrow> f x \<le> (0::int)) \<Longrightarrow> sum_list (map f xs) \<le> 0"
  by (induction xs) (simp, fastforce)

lemma exists_below_6:
  assumes "0 < sum_list (map (\<lambda>c. 6 - c) xs)"
  shows "\<exists>j < length xs. xs ! j < (6::int)"
proof (rule ccontr)
  assume neg: "\<not> ?thesis"
  have "sum_list (map (\<lambda>c. 6 - c) xs) \<le> 0"
  proof (rule sum_list_nonpos)
    fix x assume "x \<in> set xs"
    then obtain j where "j < length xs" "xs ! j = x" by (auto simp: in_set_conv_nth)
    with neg show "6 - x \<le> 0" by force
  qed
  with assms show False by simp
qed

lemma raise_loop_seek:
  assumes hit: "\<And>j. j < length xs \<Longrightarrow> xs ! j < 6 \<Longrightarrow> \<exists>ys. raise_loop xs diff j = Some (None, ys) \<and> Q ys"
    and pos: "0 < diff"
    and i: "i < length xs"
    and k: "xs ! ((i + k) mod length xs) < 6"
  shows "\<exists>ys. raise_loop xs diff i = Some (None, ys) \<and> Q ys"
  using i k
proof (induction k arbitrary: i)
  case 0
  then show ?case using hit by simp
next
  case (Suc k)
  show ?case
  proof (cases "xs ! i < 6")
    case True
    then show ?thesis using hit Suc.prems by simp
  next
    case False
    let ?i' = "(i + 1) mod length xs"
    have "0 < length xs" using Suc.prems by (cases xs) simp_all
    then have i': "?i' < length xs" by simp
    have "(?i' + k) mod length xs = (i + Suc k) mod length xs"
      by (simp add: mod_add_left_eq)
    then have "xs ! ((?i' + k) mod length xs) < 6" using Suc.prems by simp
    from Suc.IH [OF i' this]
    obtain ys where "raise_loop xs diff ?i' = Some (None, ys)" "Q ys" by blast
    moreover have "raise_loop xs diff i = raise_loop xs diff ?i'"
      using pos Suc.prems False by (subst raise_loop.simps) simp
    ultimately show ?thesis by simp
  qed
qed

lemma raise_loop_total:
  assumes "diff = int d"
    and "diff \<le> sum_list (map (\<lambda>c. 6 - c) xs)"
    and "\<forall>x \<in> set xs. x \<le> 6"
    and "i < length xs \<or> d = 0"
  shows "\<exists>ys. raise_loop xs diff i = Some (None, ys) \<and> nudged_up xs diff ys"
  using assms
proof (induction d arbitrary: xs diff i)
  case 0
  then show ?case
    by (subst raise_loop.simps) (simp add: nudged_up_def)
next
  case (Suc d)
  have pos: "0 < diff" using Suc.prems by simp
  then have "0 < sum_list (map (\<lambda>c. 6 - c) xs)" using Suc.prems by linarith
  then obtain j where j: "j < length xs" "xs ! j < 6" using exists_below_6 by blast
  have i: "i < length xs" using Suc.prems by simp
  let ?k = "(j + length xs - i) mod length xs"
  have "(i + ?k) mod length xs = j"
  proof -
    have "(i + ?k) mod length xs = (i + (j + length xs - i)) mod length xs"
      by (simp add: mod_add_right_eq)
    also have "\<dots> = (j + length xs) mod length xs" using i by simp
    also have "\<dots> = j" using j by simp
    finally show ?thesis .
  qed
  then have k: "xs ! ((i + ?k) mod length xs) < 6" using j by simp
  show ?case
  proof (rule raise_loop_seek [OF _ pos i k])
    fix m assume m: "m < length xs" "xs ! m < 6"
    let ?xs' = "xs[m := xs ! m + 1]"
    let ?m' = "(m + 1) mod length xs"
    have s': "sum_list ?xs' = sum_list xs + 1"
      using m by (simp add: sum_list_update_int)
    have cap: "sum_list (map (\<lambda>c. 6 - c) ?xs') = sum_list (map (\<lambda>c. 6 - c) xs) - 1"
    proof -
      have "sum_list (map (\<lambda>c. 6 - c) ?xs') = sum_list ((map (\<lambda>c. 6 - c) xs)[m := 6 - (xs ! m + 1)])"
        by (simp add: map_update)
      then show ?thesis using m by (simp add: sum_list_update_int)
    qed
    have b': "\<forall>x \<in> set ?xs'. x \<le> 6"
    proof
      fix x assume "x \<in> set ?xs'"
      then have "x \<in> insert (xs ! m + 1) (set xs)" using set_update_subset_insert by fast
      then show "x \<le> 6" using m Suc.prems by auto
    qed
    have "\<exists>ys. raise_loop ?xs' (diff - 1) ?m' = Some (None, ys) \<and> nudged_up ?xs' (diff - 1) ys"
    proof (rule Suc.IH)
      show "diff - 1 = int d" using Suc.prems by simp
      show "diff - 1 \<le> sum_list (map (\<lambda>c. 6 - c) ?xs')" using cap Suc.prems by simp
      show "\<forall>x \<in> set ?xs'. x \<le> 6" by (rule b')
      have "0 < length xs" using m by (cases xs) simp_all
      then show "?m' < length ?xs' \<or> d = 0" by simp
    qed
    then obtain ys where ys: "raise_loop ?xs' (diff - 1) ?m' = Some (None, ys)"
      and n: "nudged_up ?xs' (diff - 1) ys" by blast
    have "raise_loop xs diff m = raise_loop ?xs' (diff - 1) ?m'"
      using pos m by (subst raise_loop.simps) simp
    moreover have "nudged_up xs diff ys"
      unfolding nudged_up_def
    proof (intro conjI allI impI)
      show "length ys = length xs" using n by (simp add: nudged_up_def)
      show "sum_list ys = sum_list xs + diff" using n s' by (simp add: nudged_up_def)
    next
      fix t assume t: "t < length xs"
      then have "?xs' ! t \<le> ys ! t" "ys ! t \<le> 6" using n by (simp_all add: nudged_up_def)
      moreover have "xs ! t \<le> ?xs' ! t" using t by (cases "t = m") simp_all
      ultimately show "xs ! t \<le> ys ! t" "ys ! t \<le> 6" by simp_all
    qed
    ultimately show "\<exists>ys. raise_loop xs diff m = Some (None, ys) \<and> nudged_up xs diff ys"
      using ys by simp
  qed
qed

lemma exists_above_2:
  assumes "0 < sum_list (map (\<lambda>c. c - 2) xs)"
  shows "\<exists>j < length xs. (2::int) < xs ! j"
proof (rule ccontr)
  assume neg: "\<not> ?thesis"
  have "sum_list (map (\<lambda>c. c - 2) xs) \<le> 0"
  proof (rule sum_list_nonpos)
    fix x assume "x \<in> set xs"
    then obtain j where "j < length xs" "xs ! j = x" by (auto simp: in_set_conv_nth)
    with neg show "x - 2 \<le> 0" by force
  qed
  with assms show False by simp
qed

lemma lower_loop_seek:
  assumes hit: "\<And>j. j < length xs \<Longrightarrow> 2 < xs ! j \<Longrightarrow> \<exists>ys. lower_loop xs need j = Some (None, ys) \<and> Q ys"
    and pos: "0 < need"
    and i: "i < length xs"
    and k: "2 < xs ! ((i + k) mod length xs)"
  shows "\<exists>ys. lower_loop xs need i = Some (None, ys) \<and> Q ys"
  using i k
proof (induction k arbitrary: i)
  case 0
  then show ?case using hit by simp
next
  case (Suc k)
  show ?case
  proof (cases "2 < xs ! i")
    case True
    then show ?thesis using hit Suc.prems by simp
  next
    case False
    let ?i' = "(i + 1) mod length xs"
    have "0 < length xs" using Suc.prems by (cases xs) simp_all
    then have i': "?i' < length xs" by simp
    have "(?i' + k) mod length xs = (i + Suc k) mod length xs"
      by (simp add: mod_add_left_eq)
    then have "2 < xs ! ((?i' + k) mod length xs)" using Suc.prems by simp
    from Suc.IH [OF i' this]
    obtain ys where "lower_loop xs need ?i' = Some (None, ys)" "Q ys" by blast
    moreover have "lower_loop xs need i = lower_loop xs need ?i'"
      using pos Suc.prems False by (subst lower_loop.simps) simp
    ultimately show ?thesis by simp
  qed
qed

lemma lower_loop_total:
  assumes "need = int d"
    and "need \<le> sum_list (map (\<lambda>c. c - 2) xs)"
    and "\<forall>x \<in> set xs. 2 \<le> x"
    and "i < length xs \<or> d = 0"
  shows "\<exists>ys. lower_loop xs need i = Some (None, ys) \<and> nudged_down xs need ys"
  using assms
proof (induction d arbitrary: xs need i)
  case 0
  then show ?case
    by (subst lower_loop.simps) (simp add: nudged_down_def)
next
  case (Suc d)
  have pos: "0 < need" using Suc.prems by simp
  then have "0 < sum_list (map (\<lambda>c. c - 2) xs)" using Suc.prems by linarith
  then obtain j where j: "j < length xs" "2 < xs ! j" using exists_above_2 by blast
  have i: "i < length xs" using Suc.prems by simp
  let ?k = "(j + length xs - i) mod length xs"
  have "(i + ?k) mod length xs = j"
  proof -
    have "(i + ?k) mod length xs = (i + (j + length xs - i)) mod length xs"
      by (simp add: mod_add_right_eq)
    also have "\<dots> = (j + length xs) mod length xs" using i by simp
    also have "\<dots> = j" using j by simp
    finally show ?thesis .
  qed
  then have k: "2 < xs ! ((i + ?k) mod length xs)" using j by simp
  show ?case
  proof (rule lower_loop_seek [OF _ pos i k])
    fix m assume m: "m < length xs" "2 < xs ! m"
    let ?xs' = "xs[m := xs ! m - 1]"
    let ?m' = "(m + 1) mod length xs"
    have s': "sum_list ?xs' = sum_list xs - 1"
      using m by (simp add: sum_list_update_int)
    have cap: "sum_list (map (\<lambda>c. c - 2) ?xs') = sum_list (map (\<lambda>c. c - 2) xs) - 1"
    proof -
      have "sum_list (map (\<lambda>c. c - 2) ?xs') = sum_list ((map (\<lambda>c. c - 2) xs)[m := xs ! m - 1 - 2])"
        by (simp add: map_update)
      then show ?thesis using m by (simp add: sum_list_update_int)
    qed
    have b': "\<forall>x \<in> set ?xs'. 2 \<le> x"
    proof
      fix x assume "x \<in> set ?xs'"
      then have "x \<in> insert (xs ! m - 1) (set xs)" using set_update_subset_insert by fast
      then show "2 \<le> x" using m Suc.prems by auto
    qed
    have "\<exists>ys. lower_loop ?xs' (need - 1) ?m' = Some (None, ys) \<and> nudged_down ?xs' (need - 1) ys"
    proof (rule Suc.IH)
      show "need - 1 = int d" using Suc.prems by simp
      show "need - 1 \<le> sum_list (map (\<lambda>c. c - 2) ?xs')" using cap Suc.prems by simp
      show "\<forall>x \<in> set ?xs'. 2 \<le> x" by (rule b')
      have "0 < length xs" using m by (cases xs) simp_all
      then show "?m' < length ?xs' \<or> d = 0" by simp
    qed
    then obtain ys where ys: "lower_loop ?xs' (need - 1) ?m' = Some (None, ys)"
      and n: "nudged_down ?xs' (need - 1) ys" by blast
    have "lower_loop xs need m = lower_loop ?xs' (need - 1) ?m'"
      using pos m by (subst lower_loop.simps) simp
    moreover have "nudged_down xs need ys"
      unfolding nudged_down_def
    proof (intro conjI allI impI)
      show "length ys = length xs" using n by (simp add: nudged_down_def)
      show "sum_list ys = sum_list xs - need" using n s' by (simp add: nudged_down_def)
    next
      fix t assume t: "t < length xs"
      then have "ys ! t \<le> ?xs' ! t" "2 \<le> ys ! t" using n by (simp_all add: nudged_down_def)
      moreover have "?xs' ! t \<le> xs ! t" using t by (cases "t = m") simp_all
      ultimately show "2 \<le> ys ! t" "ys ! t \<le> xs ! t" by simp_all
    qed
    ultimately show "\<exists>ys. lower_loop xs need m = Some (None, ys) \<and> nudged_down xs need ys"
      using ys by simp
  qed
qed

lemma room_above: "sum_list (map (\<lambda>c. 6 - c) xs) = 6 * int (length xs) - sum_list xs"
  by (induction xs) simp_all

lemma room_below: "sum_list (map (\<lambda>c. c - 2) xs) = sum_list xs - 2 * int (length xs)"
  by (induction xs) simp_all

lemma in_choices: "c \<in> set choices \<longleftrightarrow> c \<in> {2, 3, 4, 5, 6}"
  by (simp add: choices_def)

lemma choices_bounds: "set xs \<subseteq> set choices \<Longrightarrow> \<forall>x \<in> set xs. 2 \<le> x \<and> x \<le> 6"
  by (auto simp: choices_def)

text \<open>
  Claim C1. For \<open>N \<ge> 1\<close> trips, a draw of \<open>N\<close> counts from \<open>choices\<close> and a target
  \<open>T\<close> with \<open>2 * N \<le> T \<le> 6 * N\<close>, the adjustment of \<open>per_trip\<close> ends, raises
  nothing, and leaves \<open>N\<close> counts that sum exactly to \<open>T\<close>, each between 2 and 6.
\<close>

theorem adjust_per_trip_exact:
  assumes trips: "draw \<noteq> []"
    and draw: "set draw \<subseteq> set choices"
    and lo: "2 * int (length draw) \<le> target"
    and hi: "target \<le> 6 * int (length draw)"
  shows "\<exists>counts. adjust_per_trip draw target = Some (None, counts) \<and>
           length counts = length draw \<and> sum_list counts = target \<and>
           (\<forall>c \<in> set counts. 2 \<le> c \<and> c \<le> 6)"
proof -
  have b: "\<forall>x \<in> set draw. 2 \<le> x \<and> x \<le> 6" using draw by (rule choices_bounds)
  let ?diff = "target - sum_list draw"
  consider (up) "0 < ?diff" | (down) "?diff < 0" | (same) "?diff = 0" by linarith
  then show ?thesis
  proof cases
    case up
    have cap: "?diff \<le> sum_list (map (\<lambda>c. 6 - c) draw)" using hi by (simp add: room_above)
    have ne: "0 < length draw \<or> nat ?diff = 0" using trips by simp
    have "\<exists>ys. raise_loop draw ?diff 0 = Some (None, ys) \<and> nudged_up draw ?diff ys"
      by (rule raise_loop_total [where d = "nat ?diff"]) (use up cap b ne in auto)
    then obtain ys where run: "raise_loop draw ?diff 0 = Some (None, ys)"
      and n: "nudged_up draw ?diff ys" by blast
    have "adjust_per_trip draw target = Some (None, ys)"
      using trips up cap run by (simp add: adjust_per_trip_def Let_def)
    moreover have "length ys = length draw" "sum_list ys = target"
      using n by (simp_all add: nudged_up_def)
    moreover have "\<forall>c \<in> set ys. 2 \<le> c \<and> c \<le> 6"
    proof
      fix c assume "c \<in> set ys"
      then obtain j where j: "j < length ys" "ys ! j = c" by (auto simp: in_set_conv_nth)
      then have "j < length draw" using n by (simp add: nudged_up_def)
      then have "draw ! j \<le> ys ! j" "ys ! j \<le> 6" "2 \<le> draw ! j"
        using n b by (simp_all add: nudged_up_def)
      then show "2 \<le> c \<and> c \<le> 6" using j by simp
    qed
    ultimately show ?thesis by blast
  next
    case down
    have cap: "- ?diff \<le> sum_list (map (\<lambda>c. c - 2) draw)" using lo by (simp add: room_below)
    have ne: "0 < length draw \<or> nat (- ?diff) = 0" using trips by simp
    have "\<exists>ys. lower_loop draw (- ?diff) 0 = Some (None, ys) \<and> nudged_down draw (- ?diff) ys"
      by (rule lower_loop_total [where d = "nat (- ?diff)"]) (use down cap b ne in auto)
    then obtain ys where run: "lower_loop draw (- ?diff) 0 = Some (None, ys)"
      and n: "nudged_down draw (- ?diff) ys" by blast
    have "adjust_per_trip draw target = Some (None, ys)"
      using trips down cap run by (simp add: adjust_per_trip_def Let_def)
    moreover have "length ys = length draw" "sum_list ys = target"
      using n by (simp_all add: nudged_down_def)
    moreover have "\<forall>c \<in> set ys. 2 \<le> c \<and> c \<le> 6"
    proof
      fix c assume "c \<in> set ys"
      then obtain j where j: "j < length ys" "ys ! j = c" by (auto simp: in_set_conv_nth)
      then have "j < length draw" using n by (simp add: nudged_down_def)
      then have "ys ! j \<le> draw ! j" "2 \<le> ys ! j" "draw ! j \<le> 6"
        using n b by (simp_all add: nudged_down_def)
      then show "2 \<le> c \<and> c \<le> 6" using j by simp
    qed
    ultimately show ?thesis by blast
  next
    case same
    then have "adjust_per_trip draw target = Some (None, draw)"
      using trips by (simp add: adjust_per_trip_def Let_def)
    then show ?thesis using same b by simp
  qed
qed

theorem adjust_per_trip_exact_witness:
  "\<exists>counts. adjust_per_trip [4, 4, 4] 8 = Some (None, counts) \<and>
     length counts = length [4, 4, 4 :: int] \<and> sum_list counts = 8 \<and>
     (\<forall>c \<in> set counts. 2 \<le> c \<and> c \<le> 6)"
  using adjust_per_trip_exact [of "[4, 4, 4]" 8] by (simp add: choices_def)

text \<open>
  Claim C2. For \<open>N \<ge> 1\<close> trips and a target outside \<open>[2 * N, 6 * N]\<close> the capacity
  check raises the RuntimeError of its branch, and the array is still the initial
  draw: no loop has run and no count has been changed.
\<close>

theorem adjust_per_trip_infeasible:
  assumes trips: "draw \<noteq> []"
    and draw: "set draw \<subseteq> set choices"
    and out: "6 * int (length draw) < target \<or> target < 2 * int (length draw)"
  shows "adjust_per_trip draw target =
           Some (Some (RuntimeError (if 6 * int (length draw) < target
                                     then No_capacity_to_reach_target
                                     else Cannot_reduce_to_target)), draw)"
proof -
  have b: "\<forall>x \<in> set draw. 2 \<le> x \<and> x \<le> 6" using draw by (rule choices_bounds)
  have le6: "sum_list draw \<le> 6 * int (length draw)"
    using b by (induction draw) auto
  have ge2: "2 * int (length draw) \<le> sum_list draw"
    using b by (induction draw) auto
  show ?thesis
  proof (cases "6 * int (length draw) < target")
    case True
    then have "0 < target - sum_list draw"
      and "sum_list (map (\<lambda>c. 6 - c) draw) < target - sum_list draw"
      using le6 by (simp_all add: room_above)
    then show ?thesis using trips True by (simp add: adjust_per_trip_def Let_def)
  next
    case False
    then have lt: "target < 2 * int (length draw)" using out by simp
    then have "\<not> 0 < target - sum_list draw" "target - sum_list draw < 0"
      and "sum_list (map (\<lambda>c. c - 2) draw) < - (target - sum_list draw)"
      using ge2 by (simp_all add: room_below)
    then show ?thesis using trips False by (simp add: adjust_per_trip_def Let_def)
  qed
qed

theorem adjust_per_trip_infeasible_witness:
  "adjust_per_trip [4, 6] 20 = Some (Some (RuntimeError No_capacity_to_reach_target), [4, 6])
   \<and> adjust_per_trip [4, 6] 3 = Some (Some (RuntimeError Cannot_reduce_to_target), [4, 6])"
  using adjust_per_trip_infeasible [of "[4, 6]" 20] adjust_per_trip_infeasible [of "[4, 6]" 3]
  by (simp add: choices_def)

text \<open>
  With no trips the function raises the error of line 490 whatever the target, before
  any count exists.
\<close>

lemma adjust_per_trip_no_trips:
  "adjust_per_trip [] target = Some (Some (RuntimeError No_trips), [])"
  by (simp add: adjust_per_trip_def)

subsection \<open>The weight distribution\<close>

lemma clip_ge: "x \<in> set (np_clip_min a m) \<Longrightarrow> m \<le> x"
  by (auto simp: np_clip_min_def)

lemma sum_list_ge: "(\<And>x. x \<in> set xs \<Longrightarrow> m \<le> x) \<Longrightarrow> real (length xs) * m \<le> sum_list xs"
proof (induction xs)
  case Nil
  then show ?case by simp
next
  case (Cons a xs)
  have "m \<le> a" using Cons.prems by simp
  moreover have "real (length xs) * m \<le> sum_list xs" using Cons by simp
  ultimately show ?case by (simp add: algebra_simps)
qed

lemma clip_sum_pos:
  assumes "a \<noteq> []" shows "1 / 2 \<le> sum_list (np_clip_min a (1 / 2))"
proof -
  let ?c = "np_clip_min a (1 / 2)"
  have "real (length ?c) * (1 / 2) \<le> sum_list ?c"
    by (rule sum_list_ge) (rule clip_ge)
  moreover have "1 \<le> real (length ?c)" using assms by (cases a) (simp_all add: np_clip_min_def)
  ultimately show ?thesis by linarith
qed

lemma sum_list_scale: "sum_list (map (\<lambda>r. r / s * q) xs) = sum_list xs / s * (q::real)"
  by (induction xs) (simp_all add: algebra_simps add_divide_distrib)

text \<open>
  Claim C3. For a total \<open>Q > 0\<close> and a sample of \<open>n \<ge> 1\<close> draws the function returns
  \<open>n\<close> values, all strictly positive, whose sum is \<open>0.95 * Q\<close> (exactly, over the
  reals that stand for the floats).
\<close>

theorem distribute_weight_sum:
  assumes Q: "0 < total_weight" and n: "1 \<le> num_packages"
    and sz: "length lognormal = num_packages"
  shows "length (distribute_weight_lognormal lognormal total_weight) = num_packages \<and>
         (\<forall>w \<in> set (distribute_weight_lognormal lognormal total_weight). 0 < w) \<and>
         sum_list (distribute_weight_lognormal lognormal total_weight) = 0.95 * total_weight"
proof -
  let ?c = "np_clip_min lognormal (1 / 2)"
  have ne: "lognormal \<noteq> []" using n sz by auto
  have S: "1 / 2 \<le> sum_list ?c" using ne by (rule clip_sum_pos)
  have out: "distribute_weight_lognormal lognormal total_weight =
               map (\<lambda>r. r / sum_list ?c * (total_weight * 0.95)) ?c"
    by (simp add: distribute_weight_lognormal_def Let_def)
  have len: "length (distribute_weight_lognormal lognormal total_weight) = num_packages"
    using sz by (simp add: out np_clip_min_def)
  have pos: "\<forall>w \<in> set (distribute_weight_lognormal lognormal total_weight). 0 < w"
  proof
    fix w assume "w \<in> set (distribute_weight_lognormal lognormal total_weight)"
    then obtain r where r: "r \<in> set ?c" and w: "w = r / sum_list ?c * (total_weight * 0.95)"
      by (auto simp: out)
    have "1 / 2 \<le> r" using r by (rule clip_ge)
    then have "0 < r" and "0 < sum_list ?c" using S by simp_all
    then have "0 < r / sum_list ?c * (total_weight * 0.95)"
      using Q by (intro mult_pos_pos divide_pos_pos) simp_all
    then show "0 < w" using w by simp
  qed
  have "sum_list (distribute_weight_lognormal lognormal total_weight)
          = sum_list ?c / sum_list ?c * (total_weight * 0.95)"
    by (simp only: out sum_list_scale)
  also have "\<dots> = 0.95 * total_weight" using S by simp
  finally show ?thesis using len pos by blast
qed

theorem distribute_weight_sum_witness:
  "length (distribute_weight_lognormal [1, 40] 20) = 2 \<and>
   list_all (\<lambda>w. 0 < w) (distribute_weight_lognormal [1, 40] 20) \<and>
   sum_list (distribute_weight_lognormal [1, 40] 20) = 0.95 * 20"
  using distribute_weight_sum [of 20 2 "[1, 40]"] by (simp add: list_all_iff)

text \<open>
  Claim C6 as stated fails: with the draws 1 and 40 and a trip weight of 20 the first
  package weighs \<open>19 / 41\<close>, stored as 0.46, below the floor of 0.5.
\<close>

theorem package_floor_counterexample:
  "distribute_weight_lognormal [1, 40] 20 = [19 / 41, 760 / 41] \<and> (19 / 41 :: real) < 0.5 \<and>
   py_round (distribute_weight_lognormal [1, 40] 20 ! 0) 2 = 0.46"
  by (simp add: distribute_weight_lognormal_def np_clip_min_def Let_def py_round_def round_half_even_def)

text \<open>
  Claim C6, as amended. The floor is applied before the rescaling, so it is rescaled
  with the values: every returned value is at least \<open>0.5 * k\<close>, where
  \<open>k = 0.95 * Q / S\<close> and \<open>S\<close> is the sum of the clamped draws. The values are at
  least 0.5 whenever \<open>S \<le> 0.95 * Q\<close>.
\<close>

theorem distribute_weight_floor_scaled:
  assumes Q: "0 < total_weight" and ne: "lognormal \<noteq> []"
  shows "(\<forall>w \<in> set (distribute_weight_lognormal lognormal total_weight).
            0.5 * (0.95 * total_weight / sum_list (np_clip_min lognormal 0.5)) \<le> w) \<and>
         (sum_list (np_clip_min lognormal 0.5) \<le> 0.95 * total_weight \<longrightarrow>
            (\<forall>w \<in> set (distribute_weight_lognormal lognormal total_weight). 0.5 \<le> w))"
proof -
  let ?c = "np_clip_min lognormal (1 / 2)"
  let ?k = "0.95 * total_weight / sum_list ?c"
  have S: "1 / 2 \<le> sum_list ?c" using ne by (rule clip_sum_pos)
  have k: "0 < ?k" using S Q by simp
  have out: "distribute_weight_lognormal lognormal total_weight = map (\<lambda>r. r * ?k) ?c"
    by (simp add: distribute_weight_lognormal_def Let_def)
  have low: "\<forall>w \<in> set (distribute_weight_lognormal lognormal total_weight).
           0.5 * (0.95 * total_weight / sum_list (np_clip_min lognormal 0.5)) \<le> w"
  proof
    fix w assume "w \<in> set (distribute_weight_lognormal lognormal total_weight)"
    then obtain r where r: "r \<in> set ?c" and w: "w = r * ?k" by (auto simp: out)
    have "1 / 2 \<le> r" using r by (rule clip_ge)
    then have "1 / 2 * ?k \<le> r * ?k" using k by (intro mult_right_mono) simp_all
    then show "0.5 * (0.95 * total_weight / sum_list (np_clip_min lognormal 0.5)) \<le> w"
      using w by simp
  qed
  have "\<forall>w \<in> set (distribute_weight_lognormal lognormal total_weight). 0.5 \<le> w"
    if "sum_list (np_clip_min lognormal 0.5) \<le> 0.95 * total_weight"
  proof -
    have "1 \<le> ?k" using that S by (simp add: le_divide_eq)
    then have "(0.5::real) \<le> 0.5 * ?k" by simp
    then show ?thesis using low by fastforce
  qed
  then show ?thesis using low by blast
qed

theorem distribute_weight_floor_scaled_witness:
  "list_all (\<lambda>w. 0.5 * (0.95 * 20 / sum_list (np_clip_min [1, 40] 0.5)) \<le> w)
     (distribute_weight_lognormal [1, 40] 20) \<and>
   list_all (\<lambda>w. 0.5 \<le> w) (distribute_weight_lognormal [12, 7] 20)"
  using distribute_weight_floor_scaled [of 20 "[1, 40]"]
    distribute_weight_floor_scaled [of 20 "[12, 7]"]
  by (simp add: list_all_iff np_clip_min_def)

subsection \<open>The delivery schedule\<close>

lemma round_half_even_upper: "real_of_int (round_half_even y) \<le> y + 1 / 2"
  unfolding round_half_even_def Let_def by (simp; linarith)

lemma round_half_even_lower: "y - 1 / 2 \<le> real_of_int (round_half_even y)"
  unfolding round_half_even_def Let_def by (simp; linarith)

lemma round_half_even_nonneg: "0 \<le> y \<Longrightarrow> 0 \<le> round_half_even y"
  unfolding round_half_even_def Let_def by (simp; linarith)

lemma round_half_even_le_int: "y \<le> real_of_int m \<Longrightarrow> round_half_even y \<le> m"
  unfolding round_half_even_def Let_def by (simp; linarith)

lemma total_hours_window:
  "max (total_seconds (a - d) / 3600) 1 = real_of_int (max (a - d) us_per_hour) / real_of_int us_per_hour"
  by (simp add: total_seconds_def us_per_hour_def max_def)

text \<open>
  Claim C5, as amended. For a trip with a known arrival and at most 6 deliveries, the
  scheduled timestamp of delivery \<open>i\<close> lies in
  \<open>[departure, departure + max (arrival - departure) (1 hour))\<close>: the window is the
  duration floored at one hour. It lies in \<open>[departure, arrival)\<close> when the trip lasts
  at least one hour.
\<close>

theorem scheduled_in_floored_window:
  assumes i: "i < nat n" and n: "n \<le> 6"
  shows "departure \<le> scheduled departure (delivery_gap departure (Some arrival) n) i \<and>
         scheduled departure (delivery_gap departure (Some arrival) n) i
           < departure + max (arrival - departure) us_per_hour \<and>
         (us_per_hour \<le> arrival - departure \<longrightarrow>
            scheduled departure (delivery_gap departure (Some arrival) n) i < arrival)"
proof -
  let ?W = "max (arrival - departure) us_per_hour"
  let ?y = "delivery_gap departure (Some arrival) n * (real i + 0.5) * real_of_int us_per_hour"
  have npos: "0 < n" using i by simp
  have W: "3600000000 \<le> ?W" by (simp add: us_per_hour_def)
  have y: "?y = real_of_int ?W * (real i + 1 / 2) / real_of_int n"
    by (simp add: delivery_gap_def Let_def total_hours_window us_per_hour_def)
  have ylo: "0 \<le> ?y" unfolding y using W npos by simp
  have "real i + 1 / 2 \<le> real_of_int n - 1 / 2" using i by linarith
  then have "real_of_int ?W * (real i + 1 / 2) \<le> real_of_int ?W * (real_of_int n - 1 / 2)"
    using W by (intro mult_left_mono) simp_all
  then have "?y \<le> real_of_int ?W * (real_of_int n - 1 / 2) / real_of_int n"
    unfolding y using npos by (simp add: divide_right_mono)
  also have "\<dots> = real_of_int ?W - real_of_int ?W / (2 * real_of_int n)"
    using npos by (simp add: field_simps)
  finally have yhi: "?y \<le> real_of_int ?W - real_of_int ?W / (2 * real_of_int n)" .
  have "real_of_int ?W / (2 * real_of_int n) \<ge> 3600000000 / 12"
  proof -
    have "3600000000 / 12 \<le> real_of_int ?W / 12" using W by simp
    also have "\<dots> \<le> real_of_int ?W / (2 * real_of_int n)"
      using W n npos by (intro divide_left_mono) simp_all
    finally show ?thesis by simp
  qed
  with yhi have "?y + 1 / 2 < real_of_int ?W" by linarith
  with round_half_even_upper [of ?y] have "real_of_int (round_half_even ?y) < real_of_int ?W"
    by linarith
  then have hi: "round_half_even ?y < ?W" by linarith
  have lo: "0 \<le> round_half_even ?y" using ylo by (rule round_half_even_nonneg)
  have sch: "scheduled departure (delivery_gap departure (Some arrival) n) i
               = departure + round_half_even ?y"
    by (simp add: scheduled_def timedelta_hours_def)
  show ?thesis unfolding sch using lo hi by (auto simp: max_def)
qed

theorem scheduled_in_floored_window_witness:
  "0 \<le> scheduled 0 (delivery_gap 0 (Some 7200000000) 4) 3 \<and>
   scheduled 0 (delivery_gap 0 (Some 7200000000) 4) 3 < 0 + max (7200000000 - 0) us_per_hour \<and>
   scheduled 0 (delivery_gap 0 (Some 7200000000) 4) 3 < 7200000000"
  using scheduled_in_floored_window [of 3 4 0 7200000000] by (simp add: us_per_hour_def)

text \<open>
  Claim C5 as stated fails for a trip shorter than one hour: departure 08:00, arrival
  08:30, two deliveries; the second is scheduled at 08:45, after the arrival.
\<close>

theorem scheduled_window_counterexample:
  "replace_time (timedelta_days 739000) 8 0 < replace_time (timedelta_days 739000) 8 30 \<and>
   scheduled (replace_time (timedelta_days 739000) 8 0)
     (delivery_gap (replace_time (timedelta_days 739000) 8 0)
        (Some (replace_time (timedelta_days 739000) 8 30)) 2) 1
     = replace_time (timedelta_days 739000) 8 45 \<and>
   \<not> replace_time (timedelta_days 739000) 8 45 < replace_time (timedelta_days 739000) 8 30"
  by (simp add: scheduled_def delivery_gap_def timedelta_hours_def round_half_even_def Let_def
      replace_time_def timedelta_days_def date_def total_seconds_def
      us_per_day_def us_per_hour_def us_per_minute_def)

subsection \<open>Maintenance dates\<close>

lemma interpolated_date_same_day:
  "interpolated_date (replace_time (timedelta_days 739000) 8 0)
      (replace_time (timedelta_days 739000) 20 0) 9700 9700 = 739001"
  by (simp add: interpolated_date_def Let_def days_def py_int_def date_def
      replace_time_def timedelta_days_def us_per_day_def us_per_hour_def us_per_minute_def)

lemma maintenance_walk_stop:
  "total_km < km_cursor + next_threshold \<Longrightarrow>
   maintenance_walk rnd target vid first_trip last_trip total_km km_cursor next_threshold k rows
     = Some (k, rows)"
  by (subst maintenance_walk.simps) simp

text \<open>
  Claim C8 says that every maintenance date lies between the dates of the vehicle's
  first and last trip. It fails for a vehicle whose first and last trip fall on the
  same day (08:00 and 20:00 of day 739000), with a total of 9700 km and a first
  threshold of exactly 9700: \<open>span_days\<close> is raised from 0 to 1, \<open>frac\<close> is 1, and
  the event is dated on day 739001, after the last trip.
\<close>

theorem maintenance_date_after_last_trip:
  "generate_maintenance (\<lambda>k. 0)
     [\<lparr>stats_vehicle_id = 1, stats_first_trip = Some (replace_time (timedelta_days 739000) 8 0),
       stats_last_trip = Some (replace_time (timedelta_days 739000) 20 0), stats_total_km = 9700\<rparr>] 5000
   = Some [\<lparr>maintenance_vehicle_id = 1, maintenance_date = 739001\<rparr>] \<and>
   date (replace_time (timedelta_days 739000) 8 0) = 739000 \<and>
   date (replace_time (timedelta_days 739000) 20 0) = 739000"
proof -
  have th: "10000 + uniform (- 300) 300 0 = 9700" by (simp add: uniform_def)
  have w1: "maintenance_walk (\<lambda>k. 0) 5000 vid (replace_time (timedelta_days 739000) 8 0)
              (replace_time (timedelta_days 739000) 20 0) 9700 0 9700 k []
            = Some (Suc k, [\<lparr>maintenance_vehicle_id = vid, maintenance_date = 739001\<rparr>])"
    for vid k
    by (subst maintenance_walk.simps)
      (simp add: Let_def th interpolated_date_same_day maintenance_walk_stop)
  have "date (replace_time (timedelta_days 739000) 8 0) = 739000"
    "date (replace_time (timedelta_days 739000) 20 0) = 739000"
    by (simp_all add: date_def replace_time_def timedelta_days_def us_per_day_def
        us_per_hour_def us_per_minute_def)
  then show ?thesis
    by (simp add: generate_maintenance_def Let_def th w1)
qed

text \<open>
  Where the last trip is at least one full day after the first, the interpolated date
  does stay between the two trip dates.
\<close>

lemma interpolated_date_in_span:
  assumes span: "1 \<le> days (last_trip - first_trip)"
    and km: "0 \<le> km_cursor" "km_cursor \<le> total_km" "0 < total_km"
  shows "date first_trip \<le> interpolated_date first_trip last_trip total_km km_cursor \<and>
         interpolated_date first_trip last_trip total_km km_cursor \<le> date last_trip"
proof -
  let ?s = "days (last_trip - first_trip)"
  let ?off = "py_int (km_cursor / total_km * real_of_int ?s)"
  have frac: "0 \<le> km_cursor / total_km" "km_cursor / total_km \<le> 1" using km by simp_all
  have x0: "0 \<le> km_cursor / total_km * real_of_int ?s"
    using frac span by (intro mult_nonneg_nonneg) simp_all
  have "km_cursor / total_km * real_of_int ?s \<le> 1 * real_of_int ?s"
    using frac span by (intro mult_right_mono) simp_all
  then have off: "0 \<le> ?off" "?off \<le> ?s"
    using x0 by (simp_all add: py_int_def floor_le_iff) 
  have id: "interpolated_date first_trip last_trip total_km km_cursor = date (first_trip + timedelta_days ?off)"
    using span by (simp add: interpolated_date_def Let_def max_def)
  have "?s * us_per_day \<le> last_trip - first_trip"
    by (simp add: days_def us_per_day_def)
  moreover have "?off * us_per_day \<le> ?s * us_per_day"
    using off by (intro mult_right_mono) (simp_all add: us_per_day_def)
  ultimately have "first_trip + ?off * us_per_day \<le> last_trip" by linarith
  then have "date (first_trip + timedelta_days ?off) \<le> date last_trip"
    unfolding date_def timedelta_days_def by (simp add: zdiv_mono1 us_per_day_def)
  moreover have "first_trip \<le> first_trip + ?off * us_per_day" using off by (simp add: us_per_day_def)
  then have "date first_trip \<le> date (first_trip + timedelta_days ?off)"
    unfolding date_def timedelta_days_def by (simp add: zdiv_mono1 us_per_day_def)
  ultimately show ?thesis by (simp add: id)
qed

subsection \<open>The departure hour\<close>

lemma hours_list: "hours = [6, 7, 8, 9, 10, 11, 12, 13, 14, 15, 16, 17, 18, 19, 20, 21, 22]"
  unfolding hours_def by (simp add: upt_rec)

lemma full_24_list:
  "hourly_distribution_full_24 =
     [0, 0, 0, 0, 0, 0, 4 / 101, 6 / 101, 10 / 101, 10 / 101, 8 / 101, 6 / 101, 5 / 101,
      5 / 101, 9 / 101, 9 / 101, 8 / 101, 6 / 101, 6 / 101, 4 / 101, 2 / 101, 2 / 101,
      1 / 101, 0]"
  unfolding hourly_distribution_full_24_def hours_list
  by (simp add: Let_def dict_get_def weights_def enumerate_eq_zip numeral_eq_Suc)

lemma upt_24: "[0..<24] = [0, 1, 2, 3, 4, 5, 6, 7, 8, 9, 10, 11, 12, 13, 14, 15, 16, 17, 18, 19, 20, 21, 22, 23]"
  by (simp add: upt_rec)

text \<open>
  Claim C9. The vector has 24 entries that sum to 1 and is zero at every hour outside
  \<open>[6, 22]\<close>; so every hour the draw can return (an index of positive probability)
  gives a departure hour in \<open>[6, 22]\<close>, and whatever the draw, a value below 6 is
  raised to 6.
\<close>

theorem departure_hour_range:
  "length hourly_distribution_full_24 = 24 \<and>
   sum_list hourly_distribution_full_24 = 1 \<and>
   (\<forall>h < 24. h < 6 \<or> 22 < h \<longrightarrow> hourly_distribution_full_24 ! h = 0) \<and>
   (\<forall>h < 24. 0 < hourly_distribution_full_24 ! h \<longrightarrow>
              6 \<le> departure_hour h \<and> departure_hour h \<le> 22) \<and>
   (\<forall>h. 6 \<le> departure_hour h \<and> (h < 6 \<longrightarrow> departure_hour h = 6))"
proof -
  have zero: "hourly_distribution_full_24 ! h = 0" if "h < 24" "h < 6 \<or> 22 < h" for h
  proof -
    have "h \<in> set [0..<24]" using that by simp
    then have "h \<in> {0, 1, 2, 3, 4, 5, 23}" using that unfolding upt_24 by auto
    then show ?thesis unfolding full_24_list by auto
  qed
  have supp: "6 \<le> departure_hour h \<and> departure_hour h \<le> 22"
    if "h < 24" "0 < hourly_distribution_full_24 ! h" for h
  proof -
    have "\<not> (h < 6 \<or> 22 < h)" using zero [OF that(1)] that(2) by auto
    then show ?thesis by (simp add: departure_hour_def)
  qed
  have "length hourly_distribution_full_24 = 24" "sum_list hourly_distribution_full_24 = 1"
    unfolding full_24_list by simp_all
  then show ?thesis using zero supp by (simp add: departure_hour_def)
qed

theorem departure_hour_range_witness:
  "6 \<le> departure_hour 8 \<and> departure_hour 8 \<le> 22 \<and> hourly_distribution_full_24 ! 23 = 0 \<and>
   departure_hour 3 = 6"
proof -
  have pos: "0 < hourly_distribution_full_24 ! 8" by (simp add: full_24_list)
  from departure_hour_range
  have z: "\<forall>h < 24. h < 6 \<or> 22 < h \<longrightarrow> hourly_distribution_full_24 ! h = 0"
    and s: "\<forall>h < 24. 0 < hourly_distribution_full_24 ! h \<longrightarrow>
                       6 \<le> departure_hour h \<and> departure_hour h \<le> 22"
    and c: "\<forall>h. 6 \<le> departure_hour h \<and> (h < 6 \<longrightarrow> departure_hour h = 6)"
    by blast+
  from s pos have "6 \<le> departure_hour 8 \<and> departure_hour 8 \<le> 22" by simp
  moreover from z have "hourly_distribution_full_24 ! 23 = 0" by simp
  moreover from c have "departure_hour 3 = 6" by simp
  ultimately show ?thesis by simp
qed

subsection \<open>Tracking numbers\<close>

lemma val_of_snoc: "val_of (s @ [c]) = 10 * val_of s + (of_char c - 48)"
  by (simp add: val_of_def)

lemma digit_value: "d < 10 \<Longrightarrow> of_char (char_of (48 + d) :: char) - 48 = (d::nat)"
  by simp

lemma val_of_str_nat: "val_of (str_nat n) = n"
proof (induction n rule: str_nat.induct)
  case (1 n)
  show ?case
  proof (cases "n < 10")
    case True
    then show ?thesis by (subst str_nat.simps) (simp add: val_of_def)
  next
    case False
    then have "val_of (str_nat (n div 10)) = n div 10" using 1 by simp
    moreover have "str_nat n = str_nat (n div 10) @ [char_of (48 + n mod 10)]"
      using False by (subst str_nat.simps) simp
    ultimately show ?thesis by (simp add: val_of_snoc)
  qed
qed

lemma val_of_zeros: "val_of (replicate k (CHR ''0'') @ s) = val_of s"
proof -
  have "foldl (\<lambda>a c. 10 * a + (of_char c - 48)) 0 (replicate k (CHR ''0'')) = (0::nat)"
    by (induction k) simp_all
  then show ?thesis by (simp add: val_of_def)
qed

lemma str_nat_digits: "c \<in> set (str_nat n) \<Longrightarrow> (48::nat) \<le> of_char c"
proof (induction n rule: str_nat.induct)
  case (1 n)
  show ?case
  proof (cases "n < 10")
    case True
    then have "str_nat n = [char_of (48 + n)]" by (subst str_nat.simps) simp
    then show ?thesis using 1 True by simp
  next
    case False
    then have "str_nat n = str_nat (n div 10) @ [char_of (48 + n mod 10)]"
      by (subst str_nat.simps) simp
    then have "c \<in> set (str_nat (n div 10)) \<or> c = char_of (48 + n mod 10)"
      using 1 by auto
    then show ?thesis
    proof
      assume "c \<in> set (str_nat (n div 10))"
      then show ?thesis using 1 False by simp
    next
      assume "c = char_of (48 + n mod 10)"
      then show ?thesis by simp
    qed
  qed
qed

lemma str_nat_nonempty: "str_nat n \<noteq> []"
  by (subst str_nat.simps) simp

lemma zfill_str_nat:
  "zfill (str_nat n) w = replicate (w - length (str_nat n)) (CHR ''0'') @ str_nat n"
proof (cases "str_nat n")
  case Nil
  then show ?thesis using str_nat_nonempty by simp
next
  case (Cons c rest)
  then have "(48::nat) \<le> of_char c" using str_nat_digits [of c n] by simp
  then have "c \<noteq> CHR ''+''" "c \<noteq> CHR ''-''" by auto
  then show ?thesis using Cons by (simp add: zfill_def)
qed

lemma val_of_zfill: "val_of (zfill (str_nat n) w) = n"
  by (simp add: zfill_str_nat val_of_zeros val_of_str_nat)

lemma length_str_nat_1: "n < 10 \<Longrightarrow> length (str_nat n) = 1"
  by (subst str_nat.simps) simp

lemma length_str_nat_step: "10 \<le> n \<Longrightarrow> length (str_nat n) = Suc (length (str_nat (n div 10)))"
  by (subst str_nat.simps) simp

lemma length_str_nat_4:
  assumes "1000 \<le> y" "y \<le> 9999"
  shows "length (str_nat y) = 4"
proof -
  have a: "10 \<le> y" "10 \<le> y div 10" "10 \<le> y div 10 div 10" "y div 10 div 10 div 10 < 10"
    using assms by simp_all
  show ?thesis
    by (simp add: length_str_nat_step [OF a(1)] length_str_nat_step [OF a(2)]
        length_str_nat_step [OF a(3)] length_str_nat_1 [OF a(4)])
qed

lemma tracking_inj:
  assumes "tracking y1 c1 = tracking y2 c2"
    and "1000 \<le> y1" "y1 \<le> 9999" "1000 \<le> y2" "y2 \<le> 9999"
  shows "c1 = c2"
proof -
  have "length (str_nat y1) = length (str_nat y2)"
    using assms by (simp add: length_str_nat_4)
  moreover have "str_nat y1 @ zfill (str_nat c1) 8 = str_nat y2 @ zfill (str_nat c2) 8"
    using assms(1) by (simp add: tracking_def)
  ultimately have "zfill (str_nat c1) 8 = zfill (str_nat c2) 8" by simp
  then have "val_of (zfill (str_nat c1) 8) = val_of (zfill (str_nat c2) 8)" by simp
  then show ?thesis by (simp only: val_of_zfill)
qed

lemma trip_deliveries_numbered:
  "numbered year_now counter rows \<Longrightarrow>
   numbered year_now (fst (trip_deliveries year_now t ws gap is counter rows))
     (snd (trip_deliveries year_now t ws gap is counter rows))"
proof (induction "is" arbitrary: counter rows)
  case Nil
  then show ?case by simp
next
  case (Cons i "is")
  let ?row = "\<lparr>delivery_trip_id = trip_id t,
                 tracking_number = tracking (year_now (counter + 1)) (counter + 1),
                 package_weight_kg = py_round (ws ! i) 2,
                 scheduled_datetime = scheduled (departure_datetime t) gap i\<rparr>"
  have "numbered year_now (counter + 1) (rows @ [?row])"
    using Cons.prems by (simp add: numbered_def)
  from Cons.IH [OF this] show ?case by (simp add: Let_def)
qed

lemma deliveries_loop_numbered:
  "numbered year_now counter rows \<Longrightarrow>
   numbered year_now (fst (deliveries_loop year_now lognormal tn k counter rows))
     (snd (deliveries_loop year_now lognormal tn k counter rows))"
proof (induction tn arbitrary: k counter rows)
  case Nil
  then show ?case by simp
next
  case (Cons p tn)
  obtain t n where p: "p = (t, n)" by (cases p)
  let ?ws = "distribute_weight_lognormal (lognormal k (nat n)) (total_weight_kg t)"
  let ?gap = "delivery_gap (departure_datetime t) (arrival_datetime t) n"
  let ?r = "trip_deliveries year_now t ?ws ?gap [0..<nat n] counter rows"
  have "numbered year_now (fst ?r) (snd ?r)"
    using Cons.prems by (rule trip_deliveries_numbered)
  from Cons.IH [OF this, of "Suc k"] show ?case
    by (simp add: p Let_def split_beta)
qed

text \<open>
  Claim C10. The tracking numbers of one run are pairwise distinct: the counter grows
  by one per delivery and is padded to 8 digits after the year. The year is read from
  the clock for every delivery; it is assumed to have four digits at every reading.
\<close>

theorem tracking_numbers_distinct:
  assumes years: "\<forall>c. 1000 \<le> year_now c \<and> year_now c \<le> 9999"
  shows "distinct (map tracking_number (delivery_rows year_now lognormal trips per_trip))"
proof -
  let ?r = "deliveries_loop year_now lognormal (zip trips per_trip) 0 0 []"
  have "numbered year_now 0 []" by (simp add: numbered_def)
  then have "numbered year_now (fst ?r) (snd ?r)" by (rule deliveries_loop_numbered)
  then have eq: "map tracking_number (delivery_rows year_now lognormal trips per_trip)
                   = map (\<lambda>c. tracking (year_now c) c) [1..<Suc (fst ?r)]"
    by (simp add: numbered_def delivery_rows_def)
  have "inj_on (\<lambda>c. tracking (year_now c) c) (set [1..<Suc (fst ?r)])"
    using years by (auto intro!: inj_onI dest: tracking_inj)
  then show ?thesis unfolding eq by (simp add: distinct_map)
qed

theorem tracking_numbers_distinct_witness:
  "distinct (map tracking_number (delivery_rows (\<lambda>c. 2025) (\<lambda>k n. replicate n 10)
     [\<lparr>trip_id = 1, departure_datetime = 0, arrival_datetime = None, total_weight_kg = 100\<rparr>,
      \<lparr>trip_id = 2, departure_datetime = 0, arrival_datetime = Some 7200000000,
        total_weight_kg = 100\<rparr>] [2, 3]))"
  using tracking_numbers_distinct [of "\<lambda>c. 2025"] by simp

subsection \<open>Trips\<close>

lemma trips_fold:
  "fold (\<lambda>k (current_dt, rows). (current_dt + step, rows @ [f current_dt k])) [0..<n] (c0, rows0)
     = (c0 + int n * step, rows0 @ map (\<lambda>k. f (c0 + int k * step) k) [0..<n])"
  by (induction n) (simp_all add: algebra_simps)

lemma generate_trips_rows:
  assumes "generate_trips now_start now_at vehicles drivers routes draws count = Inr rows"
  shows "rows = map (\<lambda>k. make_trip vehicles drivers routes
                        (now_start - timedelta_days 730 + int k * timedelta_minutes (minutes_step count))
                        (draws k) (now_at k)) [0..<count]"
  using assms
  by (simp add: generate_trips_def Let_def trips_fold split: if_splits)

lemma generate_trips_nth:
  assumes "generate_trips now_start now_at vehicles drivers routes draws count = Inr rows"
    and "k < count"
  shows "rows ! k = make_trip vehicles drivers routes
                      (now_start - timedelta_days 730 + int k * timedelta_minutes (minutes_step count))
                      (draws k) (now_at k)"
  using assms(2) by (simp add: generate_trips_rows [OF assms(1)])

lemma generate_trips_Inr:
  assumes "vehicles \<noteq> []" "drivers \<noteq> []" "routes \<noteq> []" "0 < count"
  shows "\<exists>rows. generate_trips now_start now_at vehicles drivers routes draws count = Inr rows"
  using assms by (simp add: generate_trips_def Let_def)

lemma py_round_2_le:
  assumes "x \<le> real_of_int m / 100"
  shows "py_round x 2 \<le> real_of_int m / 100"
proof -
  have "x * 100 \<le> real_of_int m" using assms by simp
  then have "round_half_even (x * 100) \<le> m" by (rule round_half_even_le_int)
  then have "real_of_int (round_half_even (x * 100)) \<le> real_of_int m" by simp
  then show ?thesis by (simp add: py_round_def divide_right_mono)
qed

lemma make_trip_weight:
  assumes cap: "0 \<le> capacity_kg (vehicles ! vehicle_pick d)"
    and r: "weight_r d \<le> 1"
  shows "row_total_weight (make_trip vehicles drivers routes current_dt d now)
           \<le> 0.9 * real_of_int (capacity_kg (vehicles ! vehicle_pick d))"
proof -
  let ?c = "capacity_kg (vehicles ! vehicle_pick d)"
  have u: "uniform 0.4 0.9 (weight_r d) \<le> 0.9" using r by (simp add: uniform_def)
  have "real_of_int ?c * uniform 0.4 0.9 (weight_r d) \<le> real_of_int ?c * 0.9"
    using cap u by (intro mult_left_mono) simp_all
  also have "\<dots> = real_of_int (90 * ?c) / 100" by simp
  finally have "py_round (real_of_int ?c * uniform 0.4 0.9 (weight_r d)) 2
                  \<le> real_of_int (90 * ?c) / 100"
    by (rule py_round_2_le)
  moreover have "row_total_weight (make_trip vehicles drivers routes current_dt d now)
                   = py_round (real_of_int ?c * uniform 0.4 0.9 (weight_r d)) 2"
    by (simp add: make_trip_def Let_def split_beta)
  ultimately show ?thesis by simp
qed

lemma make_trip_vehicle:
  "row_vehicle_id (make_trip vehicles drivers routes current_dt d now)
     = vehicle_id (vehicles ! vehicle_pick d)"
  by (simp add: make_trip_def Let_def split_beta)

lemma make_trip_departure:
  "row_departure (make_trip vehicles drivers routes current_dt d now)
     = replace_time current_dt (int (departure_hour (hour_draw d))) (minute_draw d)"
  by (simp add: make_trip_def Let_def split_beta)

text \<open>
  Claim C7. Every row of generate\_trips stores a total weight, rounded to 2 decimals,
  of at most 0.9 times the capacity of the vehicle chosen for the trip. Capacities are
  non-negative integers, as generate\_vehicles writes them.
\<close>

theorem trip_weight_within_capacity:
  assumes run: "generate_trips now_start now_at vehicles drivers routes draws count = Inr rows"
    and k: "k < count"
    and pick: "vehicle_pick (draws k) < length vehicles"
    and cap: "\<forall>v \<in> set vehicles. 0 \<le> capacity_kg v"
    and r: "0 \<le> weight_r (draws k)" "weight_r (draws k) < 1"
  shows "length rows = count \<and>
         row_vehicle_id (rows ! k) = vehicle_id (vehicles ! vehicle_pick (draws k)) \<and>
         row_total_weight (rows ! k)
           \<le> 0.9 * real_of_int (capacity_kg (vehicles ! vehicle_pick (draws k)))"
proof -
  have "0 \<le> capacity_kg (vehicles ! vehicle_pick (draws k))" using pick cap by simp
  moreover have "weight_r (draws k) \<le> 1" using r by simp
  ultimately have "row_total_weight (rows ! k)
           \<le> 0.9 * real_of_int (capacity_kg (vehicles ! vehicle_pick (draws k)))"
    unfolding generate_trips_nth [OF run k] by (rule make_trip_weight)
  moreover have "length rows = count" by (simp add: generate_trips_rows [OF run])
  moreover have "row_vehicle_id (rows ! k) = vehicle_id (vehicles ! vehicle_pick (draws k))"
    unfolding generate_trips_nth [OF run k] by (rule make_trip_vehicle)
  ultimately show ?thesis by simp
qed

theorem trip_weight_within_capacity_witness:
  "\<exists>rows.
     generate_trips (replace_time (timedelta_days 739000) 12 0)
       (\<lambda>k. replace_time (timedelta_days 739000) 12 0)
       [\<lparr>vehicle_id = 1, capacity_kg = 1000, vehicle_type = Van\<rparr>] [1]
       [\<lparr>route_id = 1, distance_km = 443, estimated_duration_hours = 7\<rparr>]
       (\<lambda>k. \<lparr>vehicle_pick = 0, driver_pick = 0, route_pick = 0, hour_draw = 8, minute_draw = 30,
               realism_r = 1 / 2, l100_r = 1 / 2, fuel_r = 1 / 2, weight_r = 1 / 2\<rparr>) 2
       = Inr rows \<and>
     length rows = 2 \<and> row_vehicle_id (rows ! 1) = 1 \<and> row_total_weight (rows ! 1) \<le> 0.9 * 1000"
proof -
  let ?V = "[\<lparr>vehicle_id = 1, capacity_kg = 1000, vehicle_type = Van\<rparr>]"
  let ?R = "[\<lparr>route_id = 1, distance_km = 443, estimated_duration_hours = 7\<rparr>]"
  let ?d = "\<lambda>k::nat. \<lparr>vehicle_pick = 0, driver_pick = 0, route_pick = 0, hour_draw = 8,
             minute_draw = 30, realism_r = 1 / 2, l100_r = 1 / 2, fuel_r = 1 / 2,
             weight_r = 1 / 2\<rparr>"
  let ?t1 = "replace_time (timedelta_days 739000) 12 0"
  obtain rows where r1: "generate_trips ?t1 (\<lambda>k. ?t1) ?V [1] ?R ?d 2 = Inr rows"
    using generate_trips_Inr [of ?V "[1]" ?R 2 ?t1 "\<lambda>k. ?t1" ?d] by auto
  from trip_weight_within_capacity [OF r1, of 1]
  have "length rows = 2 \<and> row_vehicle_id (rows ! 1) = 1 \<and> row_total_weight (rows ! 1) \<le> 0.9 * 1000"
    by simp
  with r1 show ?thesis by blast
qed

lemma replace_time_eq_iff:
  "replace_time t1 h m = replace_time t2 h m \<longleftrightarrow> date t1 = date t2"
  by (simp add: replace_time_def us_per_day_def)

lemma date_minus_days: "date (t - timedelta_days d + x) = date (t + x) - d"
proof -
  have "t - d * us_per_day + x = (t + x) + (- d) * us_per_day" by simp
  then have "(t - d * us_per_day + x) div us_per_day = (t + x) div us_per_day + (- d)"
    by (simp only: div_mult_self1 [of us_per_day "t + x" "- d"] us_per_day_def)
  then show ?thesis by (simp add: date_def timedelta_days_def)
qed

text \<open>
  The clock enters every departure: with the same draws and reference data, trip \<open>k\<close>
  departs at the same instant in two runs exactly when their start clocks, moved on by
  \<open>k\<close> steps, show the same day.
\<close>

lemma trip_departure_same_iff:
  assumes run1: "generate_trips now1 at1 vehicles drivers routes draws count = Inr rows1"
    and run2: "generate_trips now2 at2 vehicles drivers routes draws count = Inr rows2"
    and k: "k < count"
  shows "row_departure (rows1 ! k) = row_departure (rows2 ! k) \<longleftrightarrow>
           date (now1 + int k * timedelta_minutes (minutes_step count))
             = date (now2 + int k * timedelta_minutes (minutes_step count))"
proof -
  let ?x = "int k * timedelta_minutes (minutes_step count)"
  have "row_departure (rows1 ! k) = row_departure (rows2 ! k) \<longleftrightarrow>
          date (now1 - timedelta_days 730 + ?x) = date (now2 - timedelta_days 730 + ?x)"
    unfolding generate_trips_nth [OF run1 k] generate_trips_nth [OF run2 k]
    by (simp only: make_trip_departure replace_time_eq_iff)
  then show ?thesis by (simp only: date_minus_days) simp
qed

lemma generate_trips_departures:
  assumes "vehicles \<noteq> []" "drivers \<noteq> []" "routes \<noteq> []" "0 < count"
  shows "map_sum id (map row_departure)
           (generate_trips now_start now_at vehicles drivers routes draws count)
         = Inr (map (\<lambda>k. replace_time
                   (timedelta_days (date (now_start + int k * timedelta_minutes (minutes_step count)) - 730))
                   (int (departure_hour (hour_draw (draws k)))) (minute_draw (draws k)))
                 [0..<count])"
proof -
  obtain rows where run: "generate_trips now_start now_at vehicles drivers routes draws count = Inr rows"
    using generate_trips_Inr [OF assms] by blast
  have day: "replace_time t h m = replace_time (timedelta_days (date t)) h m" for t h m
    by (simp add: replace_time_def date_def timedelta_days_def us_per_day_def)
  have "map row_departure rows
          = map (\<lambda>k. replace_time
                   (now_start - timedelta_days 730 + int k * timedelta_minutes (minutes_step count))
                   (int (departure_hour (hour_draw (draws k)))) (minute_draw (draws k)))
              [0..<count]"
    by (simp add: generate_trips_rows [OF run] make_trip_departure o_def)
  also have "\<dots> = map (\<lambda>k. replace_time
                   (timedelta_days (date (now_start + int k * timedelta_minutes (minutes_step count)) - 730))
                   (int (departure_hour (hour_draw (draws k)))) (minute_draw (draws k)))
                 [0..<count]"
    by (subst day) (simp only: date_minus_days)
  finally show ?thesis by (simp add: run)
qed

text \<open>
  Claim C4 says that the seed and the reference data fix every generated value. The
  script seeds its random sources for reproducibility, yet generate\_trips takes its
  start date from the clock: with the same draws and the same reference data, a run
  at noon of day 739000 and a run at noon of day 739001 write different trips. The
  one trip departs at 08:30 of day 738270 in the first run and at 08:30 of day 738271
  in the second.
\<close>

theorem trips_change_with_clock:
  "map_sum id (map row_departure)
     (generate_trips (replace_time (timedelta_days 739000) 12 0)
        (\<lambda>k. replace_time (timedelta_days 739000) 12 0)
        [\<lparr>vehicle_id = 1, capacity_kg = 1000, vehicle_type = Van\<rparr>] [1]
        [\<lparr>route_id = 1, distance_km = 443, estimated_duration_hours = 7\<rparr>]
        (\<lambda>k. \<lparr>vehicle_pick = 0, driver_pick = 0, route_pick = 0, hour_draw = 8,
                minute_draw = 30, realism_r = 1 / 2, l100_r = 1 / 2, fuel_r = 1 / 2,
                weight_r = 1 / 2\<rparr>) 1)
     = Inr [replace_time (timedelta_days 738270) 8 30] \<and>
   map_sum id (map row_departure)
     (generate_trips (replace_time (timedelta_days 739001) 12 0)
        (\<lambda>k. replace_time (timedelta_days 739001) 12 0)
        [\<lparr>vehicle_id = 1, capacity_kg = 1000, vehicle_type = Van\<rparr>] [1]
        [\<lparr>route_id = 1, distance_km = 443, estimated_duration_hours = 7\<rparr>]
        (\<lambda>k. \<lparr>vehicle_pick = 0, driver_pick = 0, route_pick = 0, hour_draw = 8,
                minute_draw = 30, realism_r = 1 / 2, l100_r = 1 / 2, fuel_r = 1 / 2,
                weight_r = 1 / 2\<rparr>) 1)
     = Inr [replace_time (timedelta_days 738271) 8 30] \<and>
   replace_time (timedelta_days 738270) 8 30 \<noteq> replace_time (timedelta_days 738271) 8 30 \<and>
   generate_trips (replace_time (timedelta_days 739000) 12 0)
     (\<lambda>k. replace_time (timedelta_days 739000) 12 0)
     [\<lparr>vehicle_id = 1, capacity_kg = 1000, vehicle_type = Van\<rparr>] [1]
     [\<lparr>route_id = 1, distance_km = 443, estimated_duration_hours = 7\<rparr>]
     (\<lambda>k. \<lparr>vehicle_pick = 0, driver_pick = 0, route_pick = 0, hour_draw = 8, minute_draw = 30,
             realism_r = 1 / 2, l100_r = 1 / 2, fuel_r = 1 / 2, weight_r = 1 / 2\<rparr>) 1
   \<noteq>
   generate_trips (replace_time (timedelta_days 739001) 12 0)
     (\<lambda>k. replace_time (timedelta_days 739001) 12 0)
     [\<lparr>vehicle_id = 1, capacity_kg = 1000, vehicle_type = Van\<rparr>] [1]
     [\<lparr>route_id = 1, distance_km = 443, estimated_duration_hours = 7\<rparr>]
     (\<lambda>k. \<lparr>vehicle_pick = 0, driver_pick = 0, route_pick = 0, hour_draw = 8, minute_draw = 30,
             realism_r = 1 / 2, l100_r = 1 / 2, fuel_r = 1 / 2, weight_r = 1 / 2\<rparr>) 1"
proof -
  let ?V = "[\<lparr>vehicle_id = 1, capacity_kg = 1000, vehicle_type = Van\<rparr>]"
  let ?R = "[\<lparr>route_id = 1, distance_km = 443, estimated_duration_hours = 7\<rparr>]"
  let ?d = "\<lambda>k::nat. \<lparr>vehicle_pick = 0, driver_pick = 0, route_pick = 0, hour_draw = 8,
             minute_draw = 30, realism_r = 1 / 2, l100_r = 1 / 2, fuel_r = 1 / 2,
             weight_r = 1 / 2\<rparr>"
  let ?t1 = "replace_time (timedelta_days 739000) 12 0"
  let ?t2 = "replace_time (timedelta_days 739001) 12 0"
  let ?g1 = "generate_trips ?t1 (\<lambda>k. ?t1) ?V [1] ?R ?d 1"
  let ?g2 = "generate_trips ?t2 (\<lambda>k. ?t2) ?V [1] ?R ?d 1"
  have d1: "date ?t1 = 739000" and d2: "date ?t2 = 739001"
    by (simp_all add: date_def replace_time_def timedelta_days_def us_per_day_def
        us_per_hour_def us_per_minute_def)
  have a: "map_sum id (map row_departure) ?g1 = Inr [replace_time (timedelta_days 738270) 8 30]"
    by (subst generate_trips_departures) (simp_all add: d1 departure_hour_def)
  have b: "map_sum id (map row_departure) ?g2 = Inr [replace_time (timedelta_days 738271) 8 30]"
    by (subst generate_trips_departures) (simp_all add: d2 departure_hour_def)
  have c: "replace_time (timedelta_days 738270) 8 30 \<noteq> replace_time (timedelta_days 738271) 8 30"
    by (simp add: replace_time_def date_def timedelta_days_def us_per_day_def)
  have "?g1 \<noteq> ?g2"
  proof
    assume "?g1 = ?g2"
    then have "map_sum id (map row_departure) ?g1 = map_sum id (map row_departure) ?g2"
      by (rule arg_cong)
    then show False using c by (simp only: a b sum.inject list.inject) simp
  qed
  then show ?thesis using a b c by (intro conjI)
qed

end
